theory Spec2Isabelle
  imports Complex_Main "HOL-Library.Sublist"
begin

section \<open>Python strings\<close>

text \<open>
  A Python \<open>str\<close> is a sequence of code points. It is modelled as a HOL \<open>string\<close> in which
  every \<open>char\<close> stands for the code point of the same number, so the model covers text whose
  code points lie below 256 (ASCII and Latin-1). The character classes below are the ones
  Python uses on that range.
\<close>

definition ord :: "char \<Rightarrow> nat" where
  "ord c = of_char c"

definition isspace :: "char \<Rightarrow> bool" where
  \<comment> \<open>\<open>str.isspace\<close>, the characters removed by \<open>str.strip()\<close> and matched by \<open>\s\<close>:
      TAB, LF, VT, FF, CR, FS, GS, RS, US, SPACE, NEL and NBSP.\<close>
  "isspace c = ((9 \<le> ord c \<and> ord c \<le> 13) \<or> (28 \<le> ord c \<and> ord c \<le> 32) \<or> ord c = 133 \<or> ord c = 160)"

definition isdigit :: "char \<Rightarrow> bool" where
  \<comment> \<open>the class \<open>\d\<close>: the decimal digits\<close>
  "isdigit c = (48 \<le> ord c \<and> ord c \<le> 57)"

definition isupper :: "char \<Rightarrow> bool" where
  \<comment> \<open>the characters changed by \<open>str.lower()\<close>: A-Z, and in Latin-1 the capital letters
      0xC0-0xDE without the multiplication sign 0xD7\<close>
  "isupper c = ((65 \<le> ord c \<and> ord c \<le> 90) \<or> (192 \<le> ord c \<and> ord c \<le> 222 \<and> ord c \<noteq> 215))"

definition lower_char :: "char \<Rightarrow> char" where
  \<comment> \<open>the small letter of a capital one is 32 code points later: bit 5 is set\<close>
  "lower_char c = (if isupper c
     then (case c of Char b0 b1 b2 b3 b4 b5 b6 b7 \<Rightarrow> Char b0 b1 b2 b3 b4 True b6 b7)
     else c)"

definition lower :: "string \<Rightarrow> string" where
  \<comment> \<open>\<open>str.lower()\<close>\<close>
  "lower s = map lower_char s"

definition strip :: "string \<Rightarrow> string" where
  \<comment> \<open>\<open>str.strip()\<close>: leading and trailing whitespace removed\<close>
  "strip s = rev (dropWhile isspace (rev (dropWhile isspace s)))"

fun str_in :: "string \<Rightarrow> string \<Rightarrow> bool" where
  \<comment> \<open>\<open>sub in s\<close>: \<open>sub\<close> occurs in \<open>s\<close> as a contiguous substring\<close>
  "str_in sub [] = (sub = [])"
| "str_in sub (c # cs) = (prefix sub (c # cs) \<or> str_in sub cs)"

definition replace_char :: "char \<Rightarrow> string \<Rightarrow> string \<Rightarrow> string" where
  \<comment> \<open>\<open>s.replace(c, new)\<close> for a one-character \<open>c\<close>\<close>
  "replace_char c new s = concat (map (\<lambda>x. if x = c then new else [x]) s)"

function sub_spaces :: "string \<Rightarrow> string" where
  \<comment> \<open>\<open>re.sub(r'\s+', ' ', s)\<close>: every maximal run of whitespace becomes one space\<close>
  "sub_spaces [] = []"
| "sub_spaces (c # cs) =
     (if isspace c then CHR '' '' # sub_spaces (dropWhile isspace cs) else c # sub_spaces cs)"
  by pat_completeness auto
termination
  by (relation "measure length") (auto simp: le_imp_less_Suc length_dropWhile_le)


section \<open>The field extraction engine: cleaning and validation\<close>

subsection \<open>\<open>FormParser._clean_value\<close>\<close>

text \<open>
  The class \<open>FormParser\<close> defines the method \<open>_clean_value\<close> twice. In a Python class body
  the later \<open>def\<close> rebinds the name, so every call \<open>self._clean_value(v)\<close> runs the second
  definition; the first one is never called. Both are modelled: \<open>clean_value_first\<close> is
  the shadowed definition, \<open>clean_value\<close> the one in effect.
\<close>

definition clean_value_first :: "string option \<Rightarrow> string option" where
  "clean_value_first v = (case v of None \<Rightarrow> None | Some s \<Rightarrow>
     if s = [] then None
     else let cleaned = replace_char (CHR ''.'') [] (replace_char (CHR ''_'') [] (strip s))
          in if lower cleaned \<in> set [''none'', ''n/a'', ''unspecified''] then None
             else Some cleaned)"

definition clean_value :: "string option \<Rightarrow> string option" where
  "clean_value v = (case v of None \<Rightarrow> None | Some s \<Rightarrow>
     let v1 = strip s; v2 = sub_spaces v1
     in if v2 = [] then None else Some v2)"

definition clean_fields :: "(string \<times> string option) list \<Rightarrow> (string \<times> string option) list" where
  \<comment> \<open>\<open>{k: self._clean_value(v) for k, v in fields.items()}\<close>\<close>
  "clean_fields fields = map (\<lambda>(k, v). (k, clean_value v)) fields"

subsection \<open>Numbers in text\<close>

definition py_int :: "string \<Rightarrow> nat" where
  \<comment> \<open>\<open>int(s)\<close> for a string of decimal digits\<close>
  "py_int s = foldl (\<lambda>a c. 10 * a + (ord c - 48)) 0 s"

fun str_nat :: "nat \<Rightarrow> string" where
  \<comment> \<open>\<open>str(n)\<close>: the decimal digits of a natural number\<close>
  "str_nat n = (if n < 10 then [''0123456789'' ! n] else str_nat (n div 10) @ [''0123456789'' ! (n mod 10)])"

declare str_nat.simps [simp del]

definition fmt02d :: "nat \<Rightarrow> string" where
  \<comment> \<open>the format \<open>{n:02d}\<close>: padded with zeros on the left to two characters\<close>
  "fmt02d n = (let s = str_nat n in replicate (2 - length s) (CHR ''0'') @ s)"

text \<open>
  \<open>re_date n\<close> is \<open>re.match(r'^(\d{1,2})/(\d{1,2})/(\d{n})$', s)\<close> and returns the three groups.
  A group \<open>\d{1,2}\<close> is greedy, and what follows it is a slash, which is no digit: taking
  fewer digits than possible leaves a digit where the slash must be, so the only way to
  match is to take the longest run of at most two digits. \<open>$\<close> matches at the end of the
  string and before a newline that ends the string.
\<close>

definition re_date :: "nat \<Rightarrow> string \<Rightarrow> (string \<times> string \<times> string) option" where
  "re_date n s =
    (let m = takeWhile isdigit (take 2 s); s1 = drop (length m) s in
     if m = [] then None else
     case s1 of [] \<Rightarrow> None | c1 # s2 \<Rightarrow> if c1 \<noteq> CHR ''/'' then None else
     let d = takeWhile isdigit (take 2 s2); s3 = drop (length d) s2 in
     if d = [] then None else
     (case s3 of [] \<Rightarrow> None | c2 # s4 \<Rightarrow> if c2 \<noteq> CHR ''/'' then None else
      let y = take n s4; s5 = drop n s4 in
      if length y = n \<and> list_all isdigit y \<and> (s5 = [] \<or> s5 = [CHR 0x0A]) then Some (m, d, y) else None))"

subsection \<open>\<open>FormParser._normalize_date\<close>\<close>

definition normalize_date :: "string option \<Rightarrow> string option" where
  "normalize_date date_str = (case date_str of None \<Rightarrow> None | Some s \<Rightarrow>
     if s = [] then None else
     (case re_date 4 (strip s) of
        Some (m, d, y) \<Rightarrow> Some (fmt02d (py_int m) @ ''/'' @ fmt02d (py_int d) @ ''/'' @ y)
      | None \<Rightarrow>
       (case re_date 2 (strip s) of
          Some (m, d, y) \<Rightarrow> Some (fmt02d (py_int m) @ ''/'' @ fmt02d (py_int d) @ ''/20'' @ y)
        | None \<Rightarrow> Some (strip s))))"

subsection \<open>Date shapes\<close>

text \<open>
  The date formats of the specification, stated on their own: \<open>date_shape n t m d y\<close> says
  that \<open>t\<close> reads month \<open>m\<close>, day \<open>d\<close> and year \<open>y\<close> separated by slashes, month and day of
  one or two digits and the year of \<open>n\<close> digits; \<open>pad2\<close> pads a number on the left with
  zeros to two digits.
\<close>

definition date_shape :: "nat \<Rightarrow> string \<Rightarrow> string \<Rightarrow> string \<Rightarrow> string \<Rightarrow> bool" where
  "date_shape n t m d y =
    (t = m @ ''/'' @ d @ ''/'' @ y
     \<and> m \<noteq> [] \<and> length m \<le> 2 \<and> list_all isdigit m
     \<and> d \<noteq> [] \<and> length d \<le> 2 \<and> list_all isdigit d
     \<and> length y = n \<and> list_all isdigit y)"

definition pad2 :: "string \<Rightarrow> string" where
  "pad2 m = replicate (2 - length m) (CHR ''0'') @ m"

subsection \<open>\<open>FormParser._validate_zip\<close>\<close>

definition validate_zip :: "string option \<Rightarrow> string option" where
  "validate_zip zip_code = (case zip_code of None \<Rightarrow> None | Some z \<Rightarrow>
     if z = [] then None
     else if str_in ''48333'' z \<or> str_in ''2005'' z then None
     else Some z)"


section \<open>The section classifier\<close>

text \<open>
  \<open>_identify_section\<close> returns one of ten fixed labels. The labels are the constructors of
  \<open>form_section\<close>, in the order of the source:
  \<^item> \<open>PART_A\<close>: 'PART A: CLAIMANT INFORMATION'
  \<^item> \<open>PART_A_CONT_PART_B\<close>: 'PART A (Continued) + PART B: TRAVEL ASSISTANCE AND OTHER CLAIMS'
  \<^item> \<open>PART_C\<close>: 'PART C: MEDICAL INFORMATION'
  \<^item> \<open>PART_D\<close>: 'PART D: MEDICAL RECORD AUTHORIZATION'
  \<^item> \<open>SUPPLEMENT_A\<close>: 'SUPPLEMENT A - NON-U.S. CLAIM ITEMIZATION FORM'
  \<^item> \<open>SUPPLEMENT_B\<close>: 'SUPPLEMENT B - ILLNESS OR INJURY'
  \<^item> \<open>SUPPLEMENT_C_THIRD_PARTY\<close>: 'SUPPLEMENT C (Continued) + THIRD PARTY PAYMENT FORM'
  \<^item> \<open>SUPPLEMENT_C\<close>: 'SUPPLEMENT C - PAYMENT AUTHORIZATION AGREEMENT FORM'
  \<^item> \<open>SUPPLEMENT_D\<close>: 'SUPPLEMENT D - AUTHORIZATION FORM (PHI Disclosure)'
  \<^item> \<open>UNKNOWN_SECTION\<close>: 'UNKNOWN SECTION'

  (the source writes an em dash where this list has a hyphen).
\<close>

datatype form_section =
    PART_A
  | PART_A_CONT_PART_B
  | PART_C
  | PART_D
  | SUPPLEMENT_A
  | SUPPLEMENT_B
  | SUPPLEMENT_C_THIRD_PARTY
  | SUPPLEMENT_C
  | SUPPLEMENT_D
  | UNKNOWN_SECTION

definition identify_section :: "string \<Rightarrow> int \<Rightarrow> form_section" where
  "identify_section text page_num =
    (if str_in ''PART A: CLAIMANT INFORMATION'' text \<and> page_num = 1 then PART_A
     else if str_in ''PART A: CLAIMANT INFORMATION'' text \<and> page_num = 2 then PART_A_CONT_PART_B
     else if str_in ''PART C: MEDICAL INFORMATION'' text then PART_C
     else if str_in ''PART D: MEDICAL RECORD AUTHORIZATION'' text then PART_D
     else if str_in ''SUPPLEMENT A'' text then SUPPLEMENT_A
     else if str_in ''SUPPLEMENT B'' text then SUPPLEMENT_B
     else if str_in ''SUPPLEMENT C'' text then
       (if str_in ''THIRD PARTY'' text then SUPPLEMENT_C_THIRD_PARTY else SUPPLEMENT_C)
     else if str_in ''SUPPLEMENT D'' text then SUPPLEMENT_D
     else UNKNOWN_SECTION)"

text \<open>
  The classifier as the specification describes it: an ordered list of marker predicates,
  each with the section it selects; the first predicate that holds decides, and no
  predicate holding gives the unknown section.
\<close>

definition section_rules :: "((string \<Rightarrow> int \<Rightarrow> bool) \<times> form_section) list" where
  "section_rules =
    [(\<lambda>text page_num. str_in ''PART A: CLAIMANT INFORMATION'' text \<and> page_num = 1, PART_A),
     (\<lambda>text page_num. str_in ''PART A: CLAIMANT INFORMATION'' text \<and> page_num = 2, PART_A_CONT_PART_B),
     (\<lambda>text page_num. str_in ''PART C: MEDICAL INFORMATION'' text, PART_C),
     (\<lambda>text page_num. str_in ''PART D: MEDICAL RECORD AUTHORIZATION'' text, PART_D),
     (\<lambda>text page_num. str_in ''SUPPLEMENT A'' text, SUPPLEMENT_A),
     (\<lambda>text page_num. str_in ''SUPPLEMENT B'' text, SUPPLEMENT_B),
     (\<lambda>text page_num. str_in ''SUPPLEMENT C'' text \<and> str_in ''THIRD PARTY'' text, SUPPLEMENT_C_THIRD_PARTY),
     (\<lambda>text page_num. str_in ''SUPPLEMENT C'' text, SUPPLEMENT_C),
     (\<lambda>text page_num. str_in ''SUPPLEMENT D'' text, SUPPLEMENT_D)]"

fun first_match :: "((string \<Rightarrow> int \<Rightarrow> bool) \<times> form_section) list \<Rightarrow> string \<Rightarrow> int \<Rightarrow> form_section" where
  "first_match [] text page_num = UNKNOWN_SECTION"
| "first_match ((p, s) # rules) text page_num =
     (if p text page_num then s else first_match rules text page_num)"

definition marker_phrases :: "string list" where
  "marker_phrases =
    [''PART A: CLAIMANT INFORMATION'', ''PART C: MEDICAL INFORMATION'',
     ''PART D: MEDICAL RECORD AUTHORIZATION'', ''SUPPLEMENT A'', ''SUPPLEMENT B'',
     ''SUPPLEMENT C'', ''SUPPLEMENT D'']"

section \<open>Properties\<close>

subsection \<open>Substrings\<close>

lemma str_in_iff: "str_in sub s \<longleftrightarrow> (\<exists>pre suf. s = pre @ sub @ suf)"
proof (induction s)
  case Nil
  then show ?case by auto
next
  case (Cons c cs)
  show ?case
  proof
    assume "str_in sub (c # cs)"
    then consider "prefix sub (c # cs)" | "str_in sub cs" by auto
    then show "\<exists>pre suf. c # cs = pre @ sub @ suf"
    proof cases
      case 1
      then obtain suf where "c # cs = sub @ suf" by (auto simp: prefix_def)
      then have "c # cs = [] @ sub @ suf" by simp
      then show ?thesis by blast
    next
      case 2
      with Cons.IH obtain pre suf where "cs = pre @ sub @ suf" by blast
      then have "c # cs = (c # pre) @ sub @ suf" by simp
      then show ?thesis by blast
    qed
  next
    assume "\<exists>pre suf. c # cs = pre @ sub @ suf"
    then obtain pre suf where eq: "c # cs = pre @ sub @ suf" by blast
    show "str_in sub (c # cs)"
    proof (cases pre)
      case Nil
      with eq have "prefix sub (c # cs)" by (simp add: prefix_def)
      then show ?thesis by simp
    next
      case (Cons d pre')
      with eq have "cs = pre' @ sub @ suf" by simp
      with Cons.IH have "str_in sub cs" by blast
      then show ?thesis by simp
    qed
  qed
qed

lemma str_in_append: "str_in sub (pre @ sub @ suf)"
  by (auto simp: str_in_iff)

subsection \<open>Digits and two-digit formatting\<close>

lemma isdigit_set: "isdigit c \<longleftrightarrow> c \<in> set ''0123456789''"
proof
  assume "isdigit c"
  then have "48 \<le> (of_char c::nat) \<and> (of_char c::nat) \<le> 57" by (simp add: isdigit_def ord_def)
  then have "of_char c = (48::nat) \<or> of_char c = (49::nat) \<or> of_char c = (50::nat) \<or> of_char c = (51::nat)
     \<or> of_char c = (52::nat) \<or> of_char c = (53::nat) \<or> of_char c = (54::nat) \<or> of_char c = (55::nat)
     \<or> of_char c = (56::nat) \<or> of_char c = (57::nat)" by arith
  then have "of_char c = (of_char (CHR ''0'')::nat) \<or> of_char c = (of_char (CHR ''1'')::nat)
     \<or> of_char c = (of_char (CHR ''2'')::nat) \<or> of_char c = (of_char (CHR ''3'')::nat)
     \<or> of_char c = (of_char (CHR ''4'')::nat) \<or> of_char c = (of_char (CHR ''5'')::nat)
     \<or> of_char c = (of_char (CHR ''6'')::nat) \<or> of_char c = (of_char (CHR ''7'')::nat)
     \<or> of_char c = (of_char (CHR ''8'')::nat) \<or> of_char c = (of_char (CHR ''9'')::nat)" by simp
  then have "c = CHR ''0'' \<or> c = CHR ''1'' \<or> c = CHR ''2'' \<or> c = CHR ''3'' \<or> c = CHR ''4''
     \<or> c = CHR ''5'' \<or> c = CHR ''6'' \<or> c = CHR ''7'' \<or> c = CHR ''8'' \<or> c = CHR ''9''"
    by (simp only: of_char_eq_iff)
  then show "c \<in> set ''0123456789''" by auto
next
  assume "c \<in> set ''0123456789''"
  then show "isdigit c" by (auto simp: isdigit_def ord_def)
qed


lemma digit_roundtrip: "isdigit c \<Longrightarrow> ''0123456789'' ! (ord c - 48) = c"
  by (auto simp: isdigit_set ord_def)

lemma digit_nth: "k < 10 \<Longrightarrow> ord (''0123456789'' ! k) = 48 + k"
proof -
  assume "k < 10"
  then have "k = 0 \<or> k = 1 \<or> k = 2 \<or> k = 3 \<or> k = 4 \<or> k = 5 \<or> k = 6 \<or> k = 7 \<or> k = 8 \<or> k = 9"
    by arith
  then show ?thesis by (auto simp: ord_def)
qed

lemma digit_nth_isdigit: "k < 10 \<Longrightarrow> isdigit (''0123456789'' ! k)"
  by (simp add: isdigit_def digit_nth)

lemma str_nat_small: "n < 10 \<Longrightarrow> str_nat n = [''0123456789'' ! n]"
  by (subst str_nat.simps) simp

lemma str_nat_two:
  assumes "10 \<le> n" "n < 100"
  shows "str_nat n = [''0123456789'' ! (n div 10), ''0123456789'' ! (n mod 10)]"
proof -
  have d: "n div 10 < 10" using assms by simp
  have "str_nat n = str_nat (n div 10) @ [''0123456789'' ! (n mod 10)]"
    using assms by (subst str_nat.simps) simp
  then show ?thesis using d by (simp add: str_nat_small)
qed

lemma py_int_one: "py_int [a] = ord a - 48"
  by (simp add: py_int_def)

lemma py_int_two: "py_int [a, b] = 10 * (ord a - 48) + (ord b - 48)"
  by (simp add: py_int_def)

lemma fmt1: "isdigit a \<Longrightarrow> fmt02d (py_int [a]) = [CHR ''0'', a]"
proof -
  assume a: "isdigit a"
  then have "ord a - 48 < 10" by (auto simp: isdigit_def)
  then have "str_nat (ord a - 48) = [''0123456789'' ! (ord a - 48)]" by (rule str_nat_small)
  then have "str_nat (ord a - 48) = [a]" using a by (simp only: digit_roundtrip)
  then show ?thesis by (simp add: fmt02d_def py_int_one)
qed

lemma fmt2:
  assumes a: "isdigit a" and b: "isdigit b"
  shows "fmt02d (py_int [a, b]) = [a, b]"
proof -
  define i where "i = ord a - 48"
  define j where "j = ord b - 48"
  have i: "i < 10" using a by (auto simp: isdigit_def i_def)
  have j: "j < 10" using b by (auto simp: isdigit_def j_def)
  have ai: "''0123456789'' ! i = a" unfolding i_def using a by (rule digit_roundtrip)
  have bj: "''0123456789'' ! j = b" unfolding j_def using b by (rule digit_roundtrip)
  have n: "py_int [a, b] = 10 * i + j" by (simp add: py_int_two i_def j_def)
  have f: "fmt02d (10 * i + j) = [a, b]"
  proof (cases "i = 0")
    case True
    then have s: "str_nat (10 * i + j) = [b]" using j bj by (simp add: str_nat_small)
    have "a = CHR ''0''" using ai True by simp
    then show ?thesis by (simp add: fmt02d_def s)
  next
    case False
    then have lo: "10 \<le> 10 * i + j" by simp
    have hi: "10 * i + j < 100" using i j by simp
    have dv: "(10 * i + j) div 10 = i" using j by simp
    have md: "(10 * i + j) mod 10 = j" using j by simp
    have "str_nat (10 * i + j) = [a, b]"
      using str_nat_two [OF lo hi] by (simp only: dv md ai bj)
    then show ?thesis by (simp add: fmt02d_def)
  qed
  show ?thesis by (simp only: n f)
qed

subsection \<open>Date normalization\<close>

lemma slash_not_digit: "\<not> isdigit (CHR ''/'')"
  by (simp add: isdigit_def ord_def)

lemma digit_not_space: "isdigit c \<Longrightarrow> \<not> isspace c"
  by (auto simp: isdigit_def isspace_def)

lemma take_digits:
  assumes "list_all isdigit m" "m \<noteq> []" "length m \<le> 2"
  shows "takeWhile isdigit (take 2 (m @ CHR ''/'' # r)) = m"
proof -
  consider a where "m = [a]" | a b where "m = [a, b]"
    using assms by (cases m; cases "tl m"; cases "tl (tl m)") auto
  then show ?thesis
  proof cases
    case 1
    with assms show ?thesis by (simp add: slash_not_digit)
  next
    case 2
    with assms show ?thesis by simp
  qed
qed

lemma re_date_complete:
  assumes "date_shape n t m d y"
  shows "re_date n t = Some (m, d, y)"
proof -
  from assms have t: "t = m @ CHR ''/'' # d @ CHR ''/'' # y"
    and m: "list_all isdigit m" "m \<noteq> []" "length m \<le> 2"
    and d: "list_all isdigit d" "d \<noteq> []" "length d \<le> 2"
    and y: "length y = n" "list_all isdigit y"
    by (simp_all add: date_shape_def)
  have tm: "takeWhile isdigit (take 2 t) = m"
    unfolding t by (rule take_digits [OF m])
  have td: "takeWhile isdigit (take 2 (d @ CHR ''/'' # y)) = d"
    by (rule take_digits [OF d])
  have dm: "drop (length m) t = CHR ''/'' # d @ CHR ''/'' # y" unfolding t by simp
  show ?thesis
    unfolding re_date_def Let_def tm dm using m d y td by simp
qed

lemma prefix_run:
  "s = takeWhile P (take k s) @ drop (length (takeWhile P (take k s))) s"
proof -
  let ?m = "takeWhile P (take k s)"
  have "?m = take (length ?m) (take k s)" by (rule takeWhile_eq_take)
  moreover have "length ?m \<le> k"
    by (metis length_takeWhile_le length_take min.cobounded2 order_trans)
  ultimately have "?m = take (length ?m) s" by (simp add: min_def)
  then show ?thesis by (metis append_take_drop_id)
qed

lemma run_props:
  "list_all P (takeWhile P (take k s)) \<and> length (takeWhile P (take k s)) \<le> k"
proof
  show "list_all P (takeWhile P (take k s))"
    by (simp add: list_all_iff) (meson set_takeWhileD)
  show "length (takeWhile P (take k s)) \<le> k"
    by (metis length_takeWhile_le length_take min.cobounded2 order_trans)
qed

lemma re_date_sound:
  assumes "re_date n t = Some (m, d, y)"
  shows "date_shape n t m d y \<or> date_shape n (butlast t) m d y \<and> last t = CHR 0x0A \<and> t \<noteq> []"
proof -
  let ?m = "takeWhile isdigit (take 2 t)"
  let ?s1 = "drop (length ?m) t"
  from assms have mne: "?m \<noteq> []"
    by (auto simp: re_date_def Let_def split: if_splits)
  from assms mne obtain s2 where s1: "?s1 = CHR ''/'' # s2"
    by (auto simp: re_date_def Let_def split: if_splits list.splits)
  let ?d = "takeWhile isdigit (take 2 s2)"
  let ?s3 = "drop (length ?d) s2"
  from assms mne s1 have dne: "?d \<noteq> []"
    by (auto simp: re_date_def Let_def split: if_splits list.splits)
  from assms mne s1 dne obtain s4 where s3: "?s3 = CHR ''/'' # s4"
    by (auto simp: re_date_def Let_def split: if_splits list.splits)
  from assms mne s1 dne s3 have r: "m = ?m" "d = ?d" "y = take n s4" "length y = n"
    "list_all isdigit y" "drop n s4 = [] \<or> drop n s4 = [CHR 0x0A]"
    by (auto simp: re_date_def Let_def split: if_splits list.splits)
  have t1: "t = ?m @ CHR ''/'' # s2" using prefix_run [of t isdigit 2] s1 by simp
  have t2: "s2 = ?d @ CHR ''/'' # s4" using prefix_run [of s2 isdigit 2] s3 by simp
  have t3: "s4 = y @ drop n s4" using r(3) by simp
  have pm: "list_all isdigit m" "length m \<le> 2" using run_props [of isdigit 2 t] r(1) by simp_all
  have pd: "list_all isdigit d" "length d \<le> 2" using run_props [of isdigit 2 s2] r(2) by simp_all
  from r(6) show ?thesis
  proof
    assume "drop n s4 = []"
    then have "s4 = y" using t3 by simp
    then have "t = m @ ''/'' @ d @ ''/'' @ y" using t1 t2 r(1,2) by simp
    then have "date_shape n t m d y"
      using pm pd r(4,5) mne dne r(1,2) by (simp add: date_shape_def)
    then show ?thesis ..
  next
    assume "drop n s4 = [CHR 0x0A]"
    then have "s4 = y @ [CHR 0x0A]" using t3 by simp
    then have e: "t = (m @ ''/'' @ d @ ''/'' @ y) @ [CHR 0x0A]" using t1 t2 r(1,2) by simp
    then have "butlast t = m @ ''/'' @ d @ ''/'' @ y" "last t = CHR 0x0A" "t \<noteq> []"
      by (simp_all only: butlast_snoc last_snoc) simp
    then show ?thesis
      using pm pd r(4,5) mne dne r(1,2) by (simp add: date_shape_def)
  qed
qed

lemma fmt_pad:
  assumes "list_all isdigit m" "m \<noteq> []" "length m \<le> 2"
  shows "fmt02d (py_int m) = pad2 m"
proof -
  consider a where "m = [a]" | a b where "m = [a, b]"
    using assms by (cases m; cases "tl m"; cases "tl (tl m)") auto
  then show ?thesis
  proof cases
    case 1
    with assms show ?thesis by (simp add: fmt1 pad2_def)
  next
    case 2
    with assms show ?thesis by (simp add: fmt2 pad2_def)
  qed
qed

lemma pad2_props:
  assumes "list_all isdigit m" "m \<noteq> []" "length m \<le> 2"
  shows "length (pad2 m) = 2 \<and> list_all isdigit (pad2 m) \<and> pad2 (pad2 m) = pad2 m"
proof -
  have z: "isdigit (CHR ''0'')" by (simp add: isdigit_def ord_def)
  consider a where "m = [a]" | a b where "m = [a, b]"
    using assms by (cases m; cases "tl m"; cases "tl (tl m)") auto
  then show ?thesis
  proof cases
    case 1
    with assms z show ?thesis by (simp add: pad2_def)
  next
    case 2
    with assms show ?thesis by (simp add: pad2_def)
  qed
qed

lemma strip_Nil: "strip [] = []"
  by (simp add: strip_def)

lemma strip_ends:
  assumes "strip s \<noteq> []"
  shows "\<not> isspace (hd (strip s)) \<and> \<not> isspace (last (strip s))"
proof -
  let ?a = "dropWhile isspace s"
  let ?b = "dropWhile isspace (rev ?a)"
  have b: "?b \<noteq> []" using assms by (simp add: strip_def)
  then have hb: "\<not> isspace (hd ?b)" by (rule hd_dropWhile)
  have l: "last (strip s) = hd ?b" using b by (simp add: strip_def last_rev)
  have a: "?a \<noteq> []"
  proof
    assume e: "?a = []"
    have "?b = []" unfolding e by simp
    with b show False ..
  qed
  then have ha: "\<not> isspace (hd ?a)" by (rule hd_dropWhile)
  have "rev ?a = takeWhile isspace (rev ?a) @ ?b" by simp
  then have "?a = rev ?b @ rev (takeWhile isspace (rev ?a))"
    by (metis rev_append rev_rev_ident)
  then have "hd ?a = hd (rev ?b)" using b by (metis hd_append2 rev_is_Nil_conv)
  then have "\<not> isspace (hd (strip s))" using ha by (simp add: strip_def)
  with l hb show ?thesis by simp
qed

lemma strip_id:
  assumes "s \<noteq> []" "\<not> isspace (hd s)" "\<not> isspace (last s)"
  shows "strip s = s"
proof -
  have a: "dropWhile isspace s = s" using assms by (cases s) auto
  have "rev s \<noteq> []" "\<not> isspace (hd (rev s))" using assms by (simp_all add: hd_rev)
  then have "dropWhile isspace (rev s) = rev s" by (cases "rev s") auto
  then show ?thesis by (simp add: strip_def a)
qed

lemma strip_strip: "strip (strip s) = strip s"
proof (cases "strip s = []")
  case True
  then show ?thesis by (simp add: strip_Nil)
next
  case False
  then show ?thesis using strip_ends [OF False] by (simp add: strip_id)
qed

lemma date_shape_ends:
  assumes "date_shape n t m d y" "0 < n"
  shows "t \<noteq> [] \<and> isdigit (hd t) \<and> isdigit (last t)"
proof -
  from assms have t: "t = m @ ''/'' @ d @ ''/'' @ y" and m: "m \<noteq> []" "list_all isdigit m"
    and y: "y \<noteq> []" "list_all isdigit y"
    by (auto simp: date_shape_def)
  have "hd t = hd m" using t m by simp
  moreover have "isdigit (hd m)" using m by (cases m) auto
  moreover have "last t = last y" using t y by simp
  moreover have "isdigit (last y)" using y by (simp add: list_all_iff)
  ultimately show ?thesis using t m by simp
qed

lemma date_shape_strip:
  assumes "date_shape n t m d y" "0 < n"
  shows "strip t = t"
  using date_shape_ends [OF assms] by (simp add: strip_id digit_not_space)

lemma re_date_strip_iff:
  "re_date n (strip s) = Some (m, d, y) \<longleftrightarrow> date_shape n (strip s) m d y"
proof
  assume r: "re_date n (strip s) = Some (m, d, y)"
  from re_date_sound [OF r] show "date_shape n (strip s) m d y"
  proof
    assume "date_shape n (strip s) m d y" then show ?thesis .
  next
    assume a: "date_shape n (butlast (strip s)) m d y \<and> last (strip s) = CHR 0x0A \<and> strip s \<noteq> []"
    then have "\<not> isspace (last (strip s))" using strip_ends by blast
    moreover have "isspace (CHR 0x0A)" by (simp add: isspace_def ord_def)
    ultimately show ?thesis using a by simp
  qed
next
  assume "date_shape n (strip s) m d y"
  then show "re_date n (strip s) = Some (m, d, y)" by (rule re_date_complete)
qed

lemma re_date_4_2: "re_date 4 t = Some x \<Longrightarrow> re_date 2 t = None"
proof -
  assume a: "re_date 4 t = Some x"
  let ?m = "takeWhile isdigit (take 2 t)"
  let ?s1 = "drop (length ?m) t"
  from a have mne: "?m \<noteq> []"
    by (auto simp: re_date_def Let_def split: if_splits)
  from a mne obtain s2 where s1: "?s1 = CHR ''/'' # s2"
    by (auto simp: re_date_def Let_def split: if_splits list.splits)
  let ?d = "takeWhile isdigit (take 2 s2)"
  let ?s3 = "drop (length ?d) s2"
  from a mne s1 have dne: "?d \<noteq> []"
    by (auto simp: re_date_def Let_def split: if_splits list.splits)
  from a mne s1 dne obtain s4 where s3: "?s3 = CHR ''/'' # s4"
    by (auto simp: re_date_def Let_def split: if_splits list.splits)
  from a mne s1 dne s3 have r: "length (take 4 s4) = 4" "list_all isdigit (take 4 s4)"
    by (auto simp: re_date_def Let_def split: if_splits list.splits)
  from r(1) have l: "4 \<le> length s4" by simp
  then have n1: "drop 2 s4 \<noteq> []" by simp
  have n2: "drop 2 s4 \<noteq> [CHR 0x0A]"
  proof
    assume e: "drop 2 s4 = [CHR 0x0A]"
    have "length (drop 2 s4) = length [CHR 0x0A]" by (simp only: e)
    then have "length s4 - 2 = 1" by simp
    with l show False by simp
  qed
  show ?thesis
    using mne s1 dne s3 n1 n2 by (simp add: re_date_def Let_def)
qed

text \<open>
  Claim C7. Date normalization accepts M/D/YYYY and M/D/YY (surrounding whitespace
  trimmed) and rewrites them to zero-padded MM/DD/YYYY, a two-digit year becoming 20YY:
  '9/5/2023' gives '09/05/2023' and '07/09/23' gives '07/09/2023'. A non-empty string of
  neither shape is returned trimmed and otherwise unchanged.
\<close>

theorem normalize_date_pads_or_trims:
  "normalize_date (Some ''9/5/2023'') = Some ''09/05/2023''
   \<and> normalize_date (Some ''07/09/23'') = Some ''07/09/2023''
   \<and> (date_shape 4 (strip s) m d y
        \<longrightarrow> normalize_date (Some s) = Some (pad2 m @ ''/'' @ pad2 d @ ''/'' @ y))
   \<and> (date_shape 2 (strip s) m d y
        \<longrightarrow> normalize_date (Some s) = Some (pad2 m @ ''/'' @ pad2 d @ ''/20'' @ y))
   \<and> (s \<noteq> [] \<and> (\<forall>m d y. \<not> date_shape 4 (strip s) m d y \<and> \<not> date_shape 2 (strip s) m d y)
        \<longrightarrow> normalize_date (Some s) = Some (strip s))"
proof -
  have d4: "normalize_date (Some s) = Some (pad2 m @ ''/'' @ pad2 d @ ''/'' @ y)"
    if a: "date_shape 4 (strip s) m d y" for s m d y
  proof -
    have r: "re_date 4 (strip s) = Some (m, d, y)" using a by (rule re_date_complete)
    have "strip s \<noteq> []" using a by (simp add: date_shape_def)
    then have ne: "s \<noteq> []" by (auto simp: strip_Nil)
    have "fmt02d (py_int m) = pad2 m" "fmt02d (py_int d) = pad2 d"
      using a by (simp_all add: date_shape_def fmt_pad)
    then show ?thesis using r ne by (simp add: normalize_date_def)
  qed
  have d2: "normalize_date (Some s) = Some (pad2 m @ ''/'' @ pad2 d @ ''/20'' @ y)"
    if a: "date_shape 2 (strip s) m d y" for s m d y
  proof -
    have r: "re_date 2 (strip s) = Some (m, d, y)" using a by (rule re_date_complete)
    have r4: "re_date 4 (strip s) = None"
    proof (cases "re_date 4 (strip s)")
      case None then show ?thesis .
    next
      case (Some x)
      then have "re_date 2 (strip s) = None" by (rule re_date_4_2)
      with r show ?thesis by simp
    qed
    have "strip s \<noteq> []" using a by (simp add: date_shape_def)
    then have ne: "s \<noteq> []" by (auto simp: strip_Nil)
    have "fmt02d (py_int m) = pad2 m" "fmt02d (py_int d) = pad2 d"
      using a by (simp_all add: date_shape_def fmt_pad)
    then show ?thesis using r r4 ne by (simp add: normalize_date_def)
  qed
  have e1: "normalize_date (Some ''9/5/2023'') = Some ''09/05/2023''"
  proof -
    have s: "strip ''9/5/2023'' = ''9/5/2023''" by (simp add: strip_def isspace_def ord_def)
    have "date_shape 4 (strip ''9/5/2023'') ''9'' ''5'' ''2023''"
      unfolding s by (simp add: date_shape_def isdigit_def ord_def)
    from d4 [OF this] show ?thesis by (simp add: pad2_def)
  qed
  have e2: "normalize_date (Some ''07/09/23'') = Some ''07/09/2023''"
  proof -
    have s: "strip ''07/09/23'' = ''07/09/23''" by (simp add: strip_def isspace_def ord_def)
    have "date_shape 2 (strip ''07/09/23'') ''07'' ''09'' ''23''"
      unfolding s by (simp add: date_shape_def isdigit_def ord_def)
    from d2 [OF this] show ?thesis by (simp add: pad2_def)
  qed
  have mal: "normalize_date (Some s) = Some (strip s)"
    if a: "s \<noteq> [] \<and> (\<forall>m d y. \<not> date_shape 4 (strip s) m d y \<and> \<not> date_shape 2 (strip s) m d y)"
  proof -
    have "re_date 4 (strip s) = None"
    proof (cases "re_date 4 (strip s)")
      case None then show ?thesis .
    next
      case (Some x)
      obtain m d y where "x = (m, d, y)" by (cases x) auto
      with Some have "date_shape 4 (strip s) m d y" by (simp add: re_date_strip_iff)
      with a show ?thesis by blast
    qed
    moreover have "re_date 2 (strip s) = None"
    proof (cases "re_date 2 (strip s)")
      case None then show ?thesis .
    next
      case (Some x)
      obtain m d y where "x = (m, d, y)" by (cases x) auto
      with Some have "date_shape 2 (strip s) m d y" by (simp add: re_date_strip_iff)
      with a show ?thesis by blast
    qed
    ultimately show ?thesis using a by (simp add: normalize_date_def)
  qed
  show ?thesis using e1 e2 d4 d2 mal by blast
qed

lemma no_date_shape:
  "re_date n (strip s) = None \<Longrightarrow> \<not> date_shape n (strip s) m d y"
  by (simp add: re_date_strip_iff [symmetric])

lemma re_date_July: "re_date n ''July 8th'' = None"
  by (simp add: re_date_def isdigit_def ord_def)

theorem normalize_date_pads_or_trims_witness:
  "normalize_date (Some '' 1/02/1999 '') = Some ''01/02/1999''
   \<and> normalize_date (Some ''12/3/07'') = Some ''12/03/2007''
   \<and> normalize_date (Some '' July 8th'') = Some ''July 8th''"
proof -
  have s1: "strip '' 1/02/1999 '' = ''1/02/1999''" by (simp add: strip_def isspace_def ord_def)
  have s2: "strip ''12/3/07'' = ''12/3/07''" by (simp add: strip_def isspace_def ord_def)
  have s3: "strip '' July 8th'' = ''July 8th''" by (simp add: strip_def isspace_def ord_def)
  have h1: "date_shape 4 (strip '' 1/02/1999 '') ''1'' ''02'' ''1999''"
    unfolding s1 by (simp add: date_shape_def isdigit_def ord_def)
  have h2: "date_shape 2 (strip ''12/3/07'') ''12'' ''3'' ''07''"
    unfolding s2 by (simp add: date_shape_def isdigit_def ord_def)
  have "re_date 4 (strip '' July 8th'') = None" "re_date 2 (strip '' July 8th'') = None"
    unfolding s3 by (rule re_date_July)+
  then have h3: "'' July 8th'' \<noteq> [] \<and> (\<forall>m d y. \<not> date_shape 4 (strip '' July 8th'') m d y
      \<and> \<not> date_shape 2 (strip '' July 8th'') m d y)"
    using no_date_shape by blast
  have "normalize_date (Some '' 1/02/1999 '') = Some (pad2 ''1'' @ ''/'' @ pad2 ''02'' @ ''/'' @ ''1999'')"
    using normalize_date_pads_or_trims [of "'' 1/02/1999 ''" "''1''" "''02''" "''1999''"] h1 by blast
  moreover have "normalize_date (Some ''12/3/07'') = Some (pad2 ''12'' @ ''/'' @ pad2 ''3'' @ ''/20'' @ ''07'')"
    using normalize_date_pads_or_trims [of "''12/3/07''" "''12''" "''3''" "''07''"] h2 by blast
  moreover have "normalize_date (Some '' July 8th'') = Some (strip '' July 8th'')"
    using normalize_date_pads_or_trims [of "'' July 8th''"] h3 by blast
  ultimately show ?thesis by (simp add: pad2_def s3)
qed

subsection \<open>The clean stage\<close>

text \<open>
  Claim C1. The clean stage applied to every field map trims the value, strips stray
  underscores and periods, and maps the sentinel tokens "none", "n/a" and "unspecified"
  to None. The definition in effect does none of the last two: it keeps "N/A" and keeps
  underscores and periods. Only the shadowed first definition behaves as the claim says.
\<close>

theorem clean_value_keeps_sentinels_and_artifacts:
  "clean_value (Some ''N/A'') = Some ''N/A''
   \<and> clean_value (Some ''none'') = Some ''none''
   \<and> clean_value (Some ''Unspecified'') = Some ''Unspecified''
   \<and> clean_value (Some '' a_b. '') = Some ''a_b.''
   \<and> clean_fields [(''15a_countries_visited'', Some ''N/A'')] = [(''15a_countries_visited'', Some ''N/A'')]"
  by (simp add: clean_fields_def clean_value_def strip_def isspace_def ord_def)

lemma clean_value_first_examples:
  "clean_value_first (Some ''N/A'') = None
   \<and> clean_value_first (Some ''none'') = None
   \<and> clean_value_first (Some ''Unspecified'') = None
   \<and> clean_value_first (Some '' a_b. '') = Some ''ab''"
  by (simp add: clean_value_first_def strip_def isspace_def ord_def replace_char_def
      lower_def lower_char_def isupper_def)

subsection \<open>ZIP validation\<close>

text \<open>
  Claim C10. ZIP validation rejects by substring, not by equality: a candidate in which
  "48333" or "2005" occurs anywhere is rejected, so the postal code "20057" is rejected
  too; every other candidate is returned unchanged. (The empty string is Python's falsy
  value for an absent candidate and gives None, like None itself.)
\<close>

theorem validate_zip_rejects_by_substring:
  "validate_zip (Some (pre @ ''48333'' @ suf)) = None
   \<and> validate_zip (Some (pre @ ''2005'' @ suf)) = None
   \<and> validate_zip (Some ''20057'') = None
   \<and> (z \<noteq> [] \<and> \<not> str_in ''48333'' z \<and> \<not> str_in ''2005'' z \<longrightarrow> validate_zip (Some z) = Some z)
   \<and> validate_zip (Some []) = None \<and> validate_zip None = None"
proof -
  have a: "str_in ''48333'' (pre @ ''48333'' @ suf)" by (rule str_in_append)
  have b: "str_in ''2005'' (pre @ ''2005'' @ suf)" by (rule str_in_append)
  have "validate_zip (Some (pre @ ''48333'' @ suf)) = None"
    using a by (simp add: validate_zip_def)
  moreover have "validate_zip (Some (pre @ ''2005'' @ suf)) = None"
    using b by (simp add: validate_zip_def)
  moreover have "validate_zip (Some ''20057'') = None"
    by (simp add: validate_zip_def)
  moreover have "z \<noteq> [] \<and> \<not> str_in ''48333'' z \<and> \<not> str_in ''2005'' z
      \<longrightarrow> validate_zip (Some z) = Some z"
    by (simp add: validate_zip_def)
  moreover have "validate_zip (Some []) = None \<and> validate_zip None = None"
    by (simp add: validate_zip_def)
  ultimately show ?thesis by blast
qed

theorem validate_zip_rejects_by_substring_witness:
  "validate_zip (Some ''01890'') = Some ''01890''
   \<and> validate_zip (Some ''120053'') = None
   \<and> validate_zip (Some ''48333-2005'') = None"
proof -
  have h: "''01890'' \<noteq> [] \<and> \<not> str_in ''48333'' ''01890'' \<and> \<not> str_in ''2005'' ''01890''"
    by simp
  have "validate_zip (Some ''01890'') = Some ''01890''"
    using validate_zip_rejects_by_substring [of "[]" "[]" "''01890''"] h by blast
  moreover have "validate_zip (Some (''1'' @ ''2005'' @ ''3'')) = None"
    using validate_zip_rejects_by_substring [of "''1''" "''3''" "[]"] by blast
  moreover have "validate_zip (Some ([] @ ''48333'' @ ''-2005'')) = None"
    using validate_zip_rejects_by_substring [of "[]" "''-2005''" "[]"] by blast
  ultimately show ?thesis by simp
qed

subsection \<open>Section classification\<close>

lemma identify_section_first_match:
  "identify_section text page_num = first_match section_rules text page_num"
  by (simp add: identify_section_def section_rules_def)

text \<open>
  Claim C9. Section classification is total and deterministic: \<open>identify_section\<close> is a
  function into the closed enumeration \<open>form_section\<close>. It is the first matching rule of
  the ordered rule list, it falls through to the unknown section when no marker phrase
  occurs in the text, and the header 'PART A: CLAIMANT INFORMATION' gives the plain PART A
  section on page 1 and the combined PART A (Continued) + PART B section on page 2.
\<close>

theorem identify_section_total_ordered:
  "identify_section text page_num = first_match section_rules text page_num
   \<and> (list_all (\<lambda>m. \<not> str_in m text) marker_phrases
        \<longrightarrow> identify_section text page_num = UNKNOWN_SECTION)
   \<and> (str_in ''PART A: CLAIMANT INFORMATION'' text
        \<longrightarrow> identify_section text 1 = PART_A \<and> identify_section text 2 = PART_A_CONT_PART_B)"
  by (simp add: identify_section_def section_rules_def marker_phrases_def)

theorem identify_section_total_ordered_witness:
  "identify_section ''Claim form cover sheet'' 4 = UNKNOWN_SECTION
   \<and> identify_section ''PART A: CLAIMANT INFORMATION, see SUPPLEMENT A'' 1 = PART_A
   \<and> identify_section ''PART A: CLAIMANT INFORMATION, see SUPPLEMENT A'' 2 = PART_A_CONT_PART_B"
proof -
  have h1: "list_all (\<lambda>m. \<not> str_in m ''Claim form cover sheet'') marker_phrases"
    by (simp add: marker_phrases_def)
  have h2: "str_in ''PART A: CLAIMANT INFORMATION'' ''PART A: CLAIMANT INFORMATION, see SUPPLEMENT A''"
    by simp
  show ?thesis
    using identify_section_total_ordered [of "''Claim form cover sheet''" 4] h1
      identify_section_total_ordered [of "''PART A: CLAIMANT INFORMATION, see SUPPLEMENT A''" 1] h2
    by blast
qed

end
